theory Spec2Isabelle
  imports Main "HOL-Library.Multiset"
begin

section \<open>Python values and exceptions\<close>

text \<open>
  The Paillier voting code works on Python's unbounded integers (\<open>int\<close>) and on lists
  of them. An exception raised by the code is the left summand of the result.
\<close>

datatype py_error = ValueError | IndexError | ZeroDivisionError

text \<open>\<open>a % b\<close>: floor remainder, \<open>ZeroDivisionError\<close> for a zero divisor.\<close>

definition py_mod :: "int \<Rightarrow> int \<Rightarrow> py_error + int" where
  "py_mod a b = (if b = 0 then Inl ZeroDivisionError else Inr (a mod b))"

text \<open>
  The built-in \<open>pow(base, exp, mod)\<close>. The power itself is computed by squaring,
  reducing after every multiplication.
\<close>

fun modpow :: "int \<Rightarrow> nat \<Rightarrow> int \<Rightarrow> int" where
  "modpow b e m =
     (if e = 0 then 1 mod m
      else let h = modpow b (e div 2) m; s = (h * h) mod m
           in if even e then s else (s * b) mod m)"

declare modpow.simps [simp del]

text \<open>
  The loop of CPython's \<open>long_invmod\<close> (extended Euclid): it returns the last
  non-zero remainder together with its coefficient.
\<close>

function invmod_loop :: "int \<Rightarrow> int \<Rightarrow> int \<Rightarrow> int \<Rightarrow> int \<times> int" where
  "invmod_loop a n b c =
     (if n = 0 then (a, b) else invmod_loop n (a mod n) c (b - (a div n) * c))"
  by pat_completeness auto
termination
  by (relation "measure (\<lambda>(a, n, b, c). nat \<bar>n\<bar>)") (auto simp: abs_mod_less)

declare invmod_loop.simps [simp del]

definition py_pow :: "int \<Rightarrow> int \<Rightarrow> int \<Rightarrow> py_error + int" where
  "py_pow base e modulus =
     (if modulus = 0 then Inl ValueError
      else let c = \<bar>modulus\<bar>;
               fin = (\<lambda>z. if modulus < 0 \<and> z \<noteq> 0 then z - c else z)
           in if c = 1 then Inr 0
              else if e < 0 then
                (case invmod_loop base c 1 0 of
                   (a, b) \<Rightarrow> if a \<noteq> 1 then Inl ValueError
                             else Inr (fin (modpow b (nat (- e)) c)))
              else Inr (fin (modpow base (nat e) c)))"

section \<open>Paillier\_Vote.py\<close>

definition lcm_py :: "int \<Rightarrow> int \<Rightarrow> py_error + int" where
  "lcm_py a b = (if gcd a b = 0 then Inl ZeroDivisionError else Inr (a div gcd a b * b))"

definition modInv :: "int \<Rightarrow> int \<Rightarrow> py_error + int" where
  "modInv a m = (let g = gcd a m in if g \<noteq> 1 then Inl ValueError else py_pow a (- 1) m)"

text \<open>
  \<open>getRandom\<close> draws from \<open>SystemRandom\<close> until the draw is coprime to \<open>n\<close>. The
  entropy is a sequence \<open>rnd\<close>; the \<open>i\<close>-th call of \<open>randrange(1, n)\<close> returns
  \<open>1 + rnd i mod (n - 1)\<close>, and raises \<open>ValueError\<close> on the empty range. The loop has no
  bound: \<open>None\<close> stands for a run that never returns.
\<close>

partial_function (option) getRandom_loop :: "(nat \<Rightarrow> nat) \<Rightarrow> int \<Rightarrow> nat \<Rightarrow> int option" where
  "getRandom_loop rnd n i =
     (let r = 1 + int (rnd i) mod (n - 1)
      in if gcd r n = 1 then Some r else getRandom_loop rnd n (Suc i))"

definition getRandom :: "(nat \<Rightarrow> nat) \<Rightarrow> int \<Rightarrow> (py_error + int) option" where
  "getRandom rnd n =
     (if n \<le> 1 then Some (Inl ValueError) else map_option Inr (getRandom_loop rnd n 0))"

record public_key =
  pub_n :: int
  pub_g :: int
  pub_n_sq :: int

record private_key =
  priv_lambda :: int
  priv_mu :: int

definition PaillierPublicKey :: "int \<Rightarrow> int \<Rightarrow> public_key" where
  "PaillierPublicKey n g = \<lparr>pub_n = n, pub_g = g, pub_n_sq = n * n\<rparr>"

definition PaillierPrivateKey :: "int \<Rightarrow> int \<Rightarrow> private_key" where
  "PaillierPrivateKey lambda mu = \<lparr>priv_lambda = lambda, priv_mu = mu\<rparr>"

text \<open>The local function \<open>L(u) = (u - 1) // n\<close> of key generation and decryption.\<close>

definition L :: "int \<Rightarrow> int \<Rightarrow> py_error + int" where
  "L n u = (if n = 0 then Inl ZeroDivisionError else Inr ((u - 1) div n))"

definition small_primes :: "int list" where
  "small_primes = [101, 103, 107, 109, 113, 127, 131, 137, 139, 149]"

text \<open>
  \<open>random.choice(seq)\<close>: \<open>IndexError\<close> on an empty sequence, otherwise the element at
  a random index below the length; \<open>k\<close> is the entropy of the draw.
\<close>

definition random_choice :: "'a list \<Rightarrow> nat \<Rightarrow> py_error + 'a" where
  "random_choice xs k = (if xs = [] then Inl IndexError else Inr (xs ! (k mod length xs)))"

text \<open>
  \<open>generatePaillierKey(bits)\<close>; \<open>k1\<close> and \<open>k2\<close> are the entropy of its two
  \<open>random.choice\<close> calls.
\<close>

definition generatePaillierKey :: "int \<Rightarrow> nat \<Rightarrow> nat \<Rightarrow> py_error + public_key \<times> private_key" where
  "generatePaillierKey bits k1 k2 =
     (case random_choice small_primes k1 of Inl e \<Rightarrow> Inl e | Inr p \<Rightarrow>
      case random_choice (filter (\<lambda>x. x \<noteq> p) small_primes) k2 of Inl e \<Rightarrow> Inl e | Inr q \<Rightarrow>
      let n = p * q in
      case lcm_py (p - 1) (q - 1) of Inl e \<Rightarrow> Inl e | Inr lambda \<Rightarrow>
      let g = n + 1; n_sq = n * n in
      case py_pow g lambda n_sq of Inl e \<Rightarrow> Inl e | Inr x \<Rightarrow>
      case L n x of Inl e \<Rightarrow> Inl e | Inr l_val \<Rightarrow>
      case modInv l_val n of Inl e \<Rightarrow> Inl e | Inr mu \<Rightarrow>
      Inr (PaillierPublicKey n g, PaillierPrivateKey lambda mu))"


text \<open>
  \<open>paillier_encrypt(pub, m, r=None)\<close>: the optional \<open>r\<close> is an \<open>int option\<close>; without
  it the randomizer comes from \<open>getRandom\<close>, which may not return.
\<close>

definition paillier_encrypt ::
  "(nat \<Rightarrow> nat) \<Rightarrow> public_key \<Rightarrow> int \<Rightarrow> int option \<Rightarrow> (py_error + int) option" where
  "paillier_encrypt rnd pub m r =
     (let n = pub_n pub; g = pub_g pub; n_sq = pub_n_sq pub
      in if \<not> (0 \<le> m \<and> m < n) then Some (Inl ValueError)
         else case (case r of None \<Rightarrow> getRandom rnd n | Some r0 \<Rightarrow> Some (Inr r0)) of
                None \<Rightarrow> None
              | Some (Inl e) \<Rightarrow> Some (Inl e)
              | Some (Inr r1) \<Rightarrow>
                  Some (case py_pow g m n_sq of Inl e \<Rightarrow> Inl e | Inr x \<Rightarrow>
                        case py_pow r1 n n_sq of Inl e \<Rightarrow> Inl e | Inr y \<Rightarrow>
                        py_mod (x * y) n_sq))"

definition paillier_decrypt :: "public_key \<Rightarrow> private_key \<Rightarrow> int \<Rightarrow> py_error + int" where
  "paillier_decrypt pub priv c =
     (let n = pub_n pub; n_sq = pub_n_sq pub; lambda = priv_lambda priv; mu = priv_mu priv
      in case py_pow c lambda n_sq of Inl e \<Rightarrow> Inl e | Inr x \<Rightarrow>
         case L n x of Inl e \<Rightarrow> Inl e | Inr l_val \<Rightarrow>
         py_mod (l_val * mu) n)"

definition homomorphic_add :: "public_key \<Rightarrow> int \<Rightarrow> int \<Rightarrow> py_error + int" where
  "homomorphic_add pub c1 c2 = py_mod (c1 * c2) (pub_n_sq pub)"

text \<open>The \<open>for\<close> loop of \<open>homomorphic_add_many\<close>, with the running \<open>result\<close>.\<close>

fun add_many_loop :: "public_key \<Rightarrow> int \<Rightarrow> int list \<Rightarrow> py_error + int" where
  "add_many_loop pub result [] = Inr result"
| "add_many_loop pub result (c # cs) =
     (case py_mod (result * c) (pub_n_sq pub) of
        Inl e \<Rightarrow> Inl e
      | Inr result' \<Rightarrow> add_many_loop pub result' cs)"

definition homomorphic_add_many :: "public_key \<Rightarrow> int list \<Rightarrow> py_error + int" where
  "homomorphic_add_many pub ciphertexts =
     (if ciphertexts = [] then
        (case py_pow (pub_g pub) 0 (pub_n_sq pub) of Inl e \<Rightarrow> Inl e | Inr x \<Rightarrow>
         case py_pow 1 (pub_n pub) (pub_n_sq pub) of Inl e \<Rightarrow> Inl e | Inr y \<Rightarrow>
         py_mod (x * y) (pub_n_sq pub))
      else add_many_loop pub 1 ciphertexts)"

section \<open>Realistic\_Election.py\<close>

text \<open>
  \<open>encode_vote\<close>: \<open>[0] * num\<close> is empty for a negative \<open>num\<close>, and the item
  assignment \<open>v[index] = 1\<close> counts a negative index from the end.
\<close>

definition encode_vote :: "int \<Rightarrow> int \<Rightarrow> py_error + int list" where
  "encode_vote index num =
     (let v = replicate (nat num) (0::int);
          len = int (length v);
          j = (if index < 0 then index + len else index)
      in if 0 \<le> j \<and> j < len then Inr (v[nat j := 1]) else Inl IndexError)"

text \<open>A list comprehension whose element expression may raise.\<close>

fun comprehension :: "('a \<Rightarrow> py_error + 'b) \<Rightarrow> 'a list \<Rightarrow> py_error + 'b list" where
  "comprehension f [] = Inr []"
| "comprehension f (x # xs) =
     (case f x of Inl e \<Rightarrow> Inl e | Inr y \<Rightarrow>
      case comprehension f xs of Inl e \<Rightarrow> Inl e | Inr ys \<Rightarrow> Inr (y # ys))"

definition add_vectors :: "int list \<Rightarrow> int list \<Rightarrow> public_key \<Rightarrow> py_error + int list" where
  "add_vectors enc_vec_a enc_vec_b pub =
     comprehension (\<lambda>(a, b). homomorphic_add pub a b) (zip enc_vec_a enc_vec_b)"

definition decrypt_vector :: "int list \<Rightarrow> public_key \<Rightarrow> private_key \<Rightarrow> py_error + int list" where
  "decrypt_vector enc_vec pub priv = comprehension (paillier_decrypt pub priv) enc_vec"

text \<open>
  The winner of \<open>run_realistic_election\<close> and \<open>multi_candidate_demo\<close> is
  \<open>tally.index(max(tally))\<close>. \<open>max\<close> raises \<open>ValueError\<close> on an empty list and keeps the
  first of equal maxima; \<open>index\<close> returns the first position holding the value.
\<close>

definition py_max :: "int list \<Rightarrow> py_error + int" where
  "py_max xs =
     (case xs of [] \<Rightarrow> Inl ValueError
      | x # rest \<Rightarrow> Inr (foldl (\<lambda>best y. if y > best then y else best) x rest))"

fun py_index :: "int list \<Rightarrow> int \<Rightarrow> py_error + nat" where
  "py_index [] x = Inl ValueError"
| "py_index (y # ys) x =
     (if y = x then Inr 0
      else case py_index ys x of Inl e \<Rightarrow> Inl e | Inr i \<Rightarrow> Inr (Suc i))"

definition winner_index :: "int list \<Rightarrow> py_error + nat" where
  "winner_index tally = (case py_max tally of Inl e \<Rightarrow> Inl e | Inr m \<Rightarrow> py_index tally m)"

section \<open>Properties of the built-in operations\<close>

text \<open>
  The squaring loop computes the modular power, and the extended Euclid loop returns
  the greatest common divisor with a coefficient that inverts the base.
\<close>

lemma modpow_eq: "modpow b e m = (b ^ e) mod m"
proof (induction b e m rule: modpow.induct)
  case (1 b e m)
  show ?case
  proof (cases "e = 0")
    case True
    then show ?thesis by (simp add: modpow.simps)
  next
    case False
    define k where "k = e div 2"
    have ih: "modpow b k m = (b ^ k) mod m"
      using "1.IH" False by (simp add: k_def)
    have sq: "((b ^ k mod m) * (b ^ k mod m)) mod m = (b ^ (2 * k)) mod m"
      by (simp add: mod_mult_eq power2_eq_square power_mult mult.commute flip: power_even_eq)
    show ?thesis
    proof (cases "even e")
      case True
      then have e: "e = 2 * k" by (auto simp: k_def)
      have "modpow b e m = ((b ^ k mod m) * (b ^ k mod m)) mod m"
        using False True ih by (subst modpow.simps) (simp add: Let_def k_def)
      then show ?thesis using sq e by simp
    next
      case odd: False
      then have e: "e = Suc (2 * k)" by (auto simp: k_def elim: oddE)
      have "modpow b e m = ((((b ^ k mod m) * (b ^ k mod m)) mod m) * b) mod m"
        using False odd ih by (subst modpow.simps) (simp add: Let_def k_def)
      also have "\<dots> = ((b ^ (2 * k) mod m) * b) mod m" using sq by simp
      also have "\<dots> = (b ^ (2 * k) * b) mod m" by (simp add: mod_mult_left_eq)
      finally show ?thesis using e by (simp add: mult.commute)
    qed
  qed
qed

lemma invmod_loop_fst:
  "0 \<le> n \<Longrightarrow> (n = 0 \<longrightarrow> 0 \<le> a) \<Longrightarrow> fst (invmod_loop a n b c) = gcd a n"
proof (induction a n b c rule: invmod_loop.induct)
  case (1 a n b c)
  show ?case
  proof (cases "n = 0")
    case True
    with "1.prems" show ?thesis by (simp add: invmod_loop.simps)
  next
    case False
    with "1.prems" have npos: "0 < n" by simp
    then have "0 \<le> a mod n" by simp
    with "1.IH" False npos have "fst (invmod_loop n (a mod n) c (b - (a div n) * c)) = gcd n (a mod n)"
      by simp
    moreover have "gcd n (a mod n) = gcd a n"
      using gcd_red_int [of a n] by simp
    ultimately show ?thesis using False by (subst invmod_loop.simps) simp
  qed
qed

lemma invmod_loop_snd:
  "n0 dvd (b * a0 - a) \<Longrightarrow> n0 dvd (c * a0 - n) \<Longrightarrow>
   n0 dvd (snd (invmod_loop a n b c) * a0 - fst (invmod_loop a n b c))"
proof (induction a n b c rule: invmod_loop.induct)
  case (1 a n b c)
  show ?case
  proof (cases "n = 0")
    case True
    with "1.prems" show ?thesis by (simp add: invmod_loop.simps)
  next
    case False
    have "(b - (a div n) * c) * a0 - a mod n = (b * a0 - a) - (a div n) * (c * a0 - n)"
      by (simp add: algebra_simps minus_mult_div_eq_mod [symmetric])
    then have "n0 dvd ((b - (a div n) * c) * a0 - a mod n)"
      using "1.prems" by (simp add: dvd_diff)
    with "1.IH" [OF False "1.prems"(2)] show ?thesis
      using False by (subst (1 2) invmod_loop.simps) simp
  qed
qed

lemma modInv_ok:
  assumes "1 < m" and "gcd a m = 1"
  shows "\<exists>mu. modInv a m = Inr mu \<and> 0 \<le> mu \<and> mu < m \<and> (a * mu) mod m = 1"
proof -
  obtain a' b' where r: "invmod_loop a m 1 0 = (a', b')" by (cases "invmod_loop a m 1 0")
  have "a' = gcd a m" using invmod_loop_fst [of m a 1 0] assms r by simp
  then have a': "a' = 1" using assms by simp
  have "m dvd (snd (invmod_loop a m 1 0) * a - fst (invmod_loop a m 1 0))"
    by (rule invmod_loop_snd) simp_all
  then have d: "m dvd (b' * a - 1)" using r a' by simp
  have "(b' * a) mod m = 1 mod m" using d by (simp add: mod_eq_dvd_iff)
  then have inv: "(a * (b' mod m)) mod m = 1" using assms by (simp add: mod_mult_right_eq mult.commute)
  have "modInv a m = Inr (b' mod m)"
    using assms r a' by (simp add: modInv_def py_pow_def Let_def modpow_eq)
  then show ?thesis using inv assms by simp
qed

section \<open>Rules for evaluating on numerals\<close>

text \<open>
  Rewrite rules that run \<open>modpow\<close>, \<open>invmod_loop\<close> and \<open>gcd\<close> on numerals, one
  binary digit or one division at a time.
\<close>

lemma modpow_zero: "modpow b 0 m = 1 mod m"
  by (simp add: modpow.simps)

lemma modpow_one: "modpow b 1 m = ((1 mod m) * (1 mod m) mod m * b) mod m"
  by (subst modpow.simps) (simp add: modpow_zero Let_def)

lemma modpow_Bit0:
  "modpow b (numeral (Num.Bit0 k)) m = (modpow b (numeral k) m)\<^sup>2 mod m"
proof -
  have "numeral (Num.Bit0 k) div 2 = (numeral k :: nat)" by simp
  then show ?thesis by (subst modpow.simps) (simp add: Let_def power2_eq_square)
qed

lemma modpow_Bit1:
  "modpow b (numeral (Num.Bit1 k)) m
     = ((modpow b (numeral k) m)\<^sup>2 mod m * b) mod m"
proof -
  have "numeral (Num.Bit1 k) div 2 = (numeral k :: nat)" by simp
  then show ?thesis by (subst modpow.simps) (simp add: Let_def power2_eq_square)
qed

lemma modpow_Suc0: "modpow b (Suc 0) m = ((1 mod m) * (1 mod m) mod m * b) mod m"
  using modpow_one by simp

lemmas modpow_eval = modpow_zero modpow_one modpow_Suc0 modpow_Bit0 modpow_Bit1

lemma invmod_loop_stop: "invmod_loop a 0 b c = (a, b)"
  by (simp add: invmod_loop.simps)

lemma invmod_loop_step:
  "n \<noteq> 0 \<Longrightarrow> invmod_loop a n b c = invmod_loop n (a mod n) c (b - (a div n) * c)"
  by (subst invmod_loop.simps) simp

lemma gcd_int_stop: "gcd (x::int) 0 = \<bar>x\<bar>"
  by simp

lemma gcd_int_step: "y \<noteq> 0 \<Longrightarrow> gcd (x::int) y = gcd y (x mod y)"
  by (rule gcd_red_int)

lemmas eval_rules = modpow_eval invmod_loop_stop invmod_loop_step gcd_int_stop gcd_int_step

section \<open>Arithmetic modulo the square of the modulus\<close>

lemma one_plus_mult_power:
  fixes k n :: int
  shows "((1 + k * n) ^ j) mod (n * n) = (1 + int j * k * n) mod (n * n)"
proof (induction j)
  case 0
  show ?case by simp
next
  case (Suc j)
  have "((1 + k * n) ^ Suc j) mod (n * n) = ((1 + k * n) * (1 + k * n) ^ j) mod (n * n)"
    by simp
  also have "\<dots> = ((1 + k * n) * ((1 + k * n) ^ j mod (n * n))) mod (n * n)"
    by (rule mod_mult_right_eq [symmetric])
  also have "\<dots> = ((1 + k * n) * ((1 + int j * k * n) mod (n * n))) mod (n * n)"
    by (simp only: Suc.IH)
  also have "\<dots> = ((1 + k * n) * (1 + int j * k * n)) mod (n * n)"
    by (rule mod_mult_right_eq)
  also have "(1 + k * n) * (1 + int j * k * n) = (1 + int (Suc j) * k * n) + (int j * k * k) * (n * n)"
    by (simp add: algebra_simps)
  also have "\<dots> mod (n * n) = (1 + int (Suc j) * k * n) mod (n * n)"
    by (rule mod_mult_self1)
  finally show ?case .
qed

lemma lin_mod_sq:
  fixes x n :: int
  assumes "1 < n"
  shows "(1 + x * n) mod (n * n) = 1 + (x mod n) * n"
proof -
  have "x * n = ((x div n) * n + x mod n) * n" by simp
  also have "\<dots> = (x mod n) * n + (x div n) * (n * n)" by (simp only: algebra_simps)
  finally have "1 + x * n = (1 + (x mod n) * n) + (x div n) * (n * n)" by simp
  then have "(1 + x * n) mod (n * n) = (1 + (x mod n) * n) mod (n * n)"
    by (simp only: mod_mult_self1)
  moreover have "0 \<le> 1 + (x mod n) * n"
    using assms by simp
  moreover have "1 + (x mod n) * n < n * n"
  proof -
    have "x mod n \<le> n - 1" using assms pos_mod_bound [of n x] by simp
    then have "(x mod n) * n \<le> (n - 1) * n" using assms by (simp only: mult_right_mono)
    then show ?thesis using assms by (simp add: algebra_simps)
  qed
  ultimately show ?thesis by simp
qed

text \<open>primality by trial division\<close>

lemma trial_division:
  fixes p d :: int
  assumes "1 < p" and "p < 169" and nodiv: "\<forall>k\<in>{2..12}. \<not> k dvd p"
    and "d dvd p" and "0 < d"
  shows "d = 1 \<or> d = p"
proof (rule ccontr)
  assume neg: "\<not> (d = 1 \<or> d = p)"
  from \<open>d dvd p\<close> obtain e where e: "p = d * e" by (auto simp: dvd_def)
  have epos: "0 < e" using e \<open>0 < d\<close> \<open>1 < p\<close> zero_less_mult_pos [of d e] by simp
  have d2: "2 \<le> d" using neg \<open>0 < d\<close> by simp
  have e2: "2 \<le> e" using neg e epos by (cases "e = 1") auto
  have "e dvd p" using e by simp
  have "\<not> d \<le> 12" using nodiv d2 \<open>d dvd p\<close> by auto
  moreover have "\<not> e \<le> 12" using nodiv e2 \<open>e dvd p\<close> by auto
  ultimately have "13 \<le> d" "13 \<le> e" by simp_all
  then have "13 * 13 \<le> d * e" using mult_mono [of 13 d 13 e] by simp
  then show False using e \<open>p < 169\<close> by simp
qed

section \<open>Fermat's little theorem\<close>

text \<open>Fermat's little theorem for a number with no proper divisor\<close>

lemma prime_coprime_below:
  fixes P :: nat
  assumes pr: "\<forall>d. d dvd P \<longrightarrow> d = 1 \<or> d = P" and "0 < j" and "j < P"
  shows "coprime P j"
proof -
  have "gcd P j dvd P" by simp
  then have "gcd P j = 1 \<or> gcd P j = P" using pr by blast
  moreover have "gcd P j \<noteq> P"
  proof
    assume "gcd P j = P"
    then have "P dvd j" by (metis gcd_dvd2)
    then show False using assms by (auto dest: dvd_imp_le)
  qed
  ultimately show ?thesis by (simp add: coprime_iff_gcd_eq_1)
qed

lemma prime_coprime_fact:
  fixes P :: nat
  assumes pr: "\<forall>d. d dvd P \<longrightarrow> d = 1 \<or> d = P"
  shows "j < P \<Longrightarrow> coprime P (fact j)"
proof (induction j)
  case 0
  show ?case by simp
next
  case (Suc j)
  then have "coprime P (fact j)" by simp
  moreover have "coprime P (Suc j)" using prime_coprime_below [OF pr, of "Suc j"] Suc.prems by simp
  ultimately have "coprime P (Suc j * fact j)" by (simp only: coprime_mult_right_iff)
  then show ?case by (simp only: fact_Suc of_nat_id)
qed

lemma prime_dvd_choose:
  fixes P :: nat
  assumes pr: "\<forall>d. d dvd P \<longrightarrow> d = 1 \<or> d = P" and "0 < k" and "k < P"
  shows "P dvd (P choose k)"
proof -
  have f: "fact k * fact (P - k) * (P choose k) = (fact P :: nat)"
    using assms by (simp add: binomial_fact_lemma)
  have "P dvd (fact P :: nat)" using assms by (simp add: dvd_fact)
  then have d: "P dvd (fact k * fact (P - k)) * (P choose k)" using f by simp
  have "coprime P (fact k * fact (P - k))"
    using prime_coprime_fact [OF pr, of k] prime_coprime_fact [OF pr, of "P - k"] assms
    by (simp add: coprime_mult_right_iff)
  then show ?thesis using d by (simp add: coprime_dvd_mult_right_iff)
qed

lemma fermat_nat:
  fixes P :: nat
  assumes pr: "\<forall>d. d dvd P \<longrightarrow> d = 1 \<or> d = P" and "1 < P"
  shows "(int a) ^ P mod int P = int a mod int P"
proof (induction a)
  case 0
  show ?case using assms by (simp add: power_0_left)
next
  case (Suc a)
  define f where "f k = int (P choose k) * (int a) ^ k" for k
  have bin: "(int a + 1) ^ P = (\<Sum>k\<le>P. f k)"
    by (simp add: binomial_ring f_def)
  have "(\<Sum>k\<le>P. f k) = f P + (\<Sum>k\<in>{..P} - {P}. f k)"
    by (rule sum.remove) simp_all
  also have "(\<Sum>k\<in>{..P} - {P}. f k) = f 0 + (\<Sum>k\<in>{..P} - {P} - {0}. f k)"
    by (rule sum.remove) (use assms in simp_all)
  finally have split: "(\<Sum>k\<le>P. f k) = f P + f 0 + (\<Sum>k\<in>{..P} - {P} - {0}. f k)"
    by simp
  have "int P dvd (\<Sum>k\<in>{..P} - {P} - {0}. f k)"
  proof (rule dvd_sum)
    fix k assume "k \<in> {..P} - {P} - {0}"
    then have "0 < k" "k < P" by auto
    then have "P dvd (P choose k)" by (rule prime_dvd_choose [OF pr])
    then have "int P dvd int (P choose k)" by (simp only: int_dvd_int_iff)
    then show "int P dvd f k" by (simp add: f_def)
  qed
  then obtain t where t: "(\<Sum>k\<in>{..P} - {P} - {0}. f k) = int P * t" by (auto simp: dvd_def)
  have "f P = (int a) ^ P" "f 0 = 1" by (simp_all add: f_def)
  then have "(int a + 1) ^ P = ((int a) ^ P + 1) + t * int P"
    using bin split t by (simp add: mult.commute)
  then have "(int a + 1) ^ P mod int P = ((int a) ^ P + 1) mod int P"
    by (simp only: mod_mult_self1)
  also have "\<dots> = ((int a) ^ P mod int P + 1) mod int P"
    by (simp add: mod_add_left_eq)
  also have "\<dots> = (int a mod int P + 1) mod int P"
    by (simp only: Suc.IH)
  also have "\<dots> = (int a + 1) mod int P"
    by (simp add: mod_add_left_eq)
  finally show ?case by (simp add: add.commute)
qed

lemma fermat_int:
  fixes p r :: int
  assumes pr: "\<forall>d. 0 < d \<longrightarrow> d dvd p \<longrightarrow> d = 1 \<or> d = p" and "1 < p" and nd: "\<not> p dvd r"
  shows "r ^ nat (p - 1) mod p = 1"
proof -
  define P where "P = nat p"
  have pP: "p = int P" using assms by (simp add: P_def)
  have prn: "\<forall>d. d dvd P \<longrightarrow> d = 1 \<or> d = P"
  proof (intro allI impI)
    fix d assume d: "d dvd P"
    then have "int d dvd p" by (simp add: pP)
    moreover have "0 < int d" using d assms pP by (cases "d = 0") auto
    ultimately have "int d = 1 \<or> int d = p" using pr by blast
    then show "d = 1 \<or> d = P" by (auto simp: pP)
  qed
  have P1: "1 < P" using assms by (simp add: P_def)
  have "r ^ P mod p = (r mod p) ^ P mod p" by (simp add: power_mod)
  also have "r mod p = int (nat (r mod p))" using assms by simp
  also have "(int (nat (r mod p))) ^ P mod p = int (nat (r mod p)) mod p"
    unfolding pP by (rule fermat_nat [OF prn P1])
  also have "int (nat (r mod p)) = r mod p" using assms by simp
  finally have "r ^ P mod p = r mod p" by simp
  then have "p dvd r ^ P - r" by (simp add: mod_eq_dvd_iff)
  moreover have "r ^ P - r = r * (r ^ (P - 1) - 1)"
  proof -
    have "P = Suc (P - 1)" using P1 by simp
    then have "r ^ P = r * r ^ (P - 1)" by (metis power_Suc)
    then show ?thesis by (simp add: algebra_simps)
  qed
  ultimately have d: "p dvd r * (r ^ (P - 1) - 1)" by simp
  have "coprime p r"
  proof -
    have "gcd p r dvd p" by simp
    moreover have "0 < gcd p r" using assms by (simp add: gcd_pos_int)
    ultimately have "gcd p r = 1 \<or> gcd p r = p" using pr by blast
    moreover have "gcd p r \<noteq> p" using nd by (metis gcd_dvd2)
    ultimately show ?thesis by (simp add: coprime_iff_gcd_eq_1)
  qed
  then have "p dvd r ^ (P - 1) - 1" using d by (simp add: coprime_dvd_mult_right_iff)
  then have "r ^ (P - 1) mod p = 1 mod p" by (simp add: mod_eq_dvd_iff)
  moreover have "nat (p - 1) = P - 1" by (simp add: P_def)
  ultimately show ?thesis using assms by simp
qed

section \<open>The prime pool\<close>

lemma pool_range: "p \<in> set small_primes \<Longrightarrow> 101 \<le> p \<and> p \<le> 149"
  by (auto simp: small_primes_def)

lemma pool_no_small_divisor:
  assumes "p \<in> set small_primes" and "k \<in> {2..12}"
  shows "\<not> k dvd p"
proof -
  have "k = 2 \<or> k = 3 \<or> k = 4 \<or> k = 5 \<or> k = 6 \<or> k = 7 \<or> k = 8 \<or> k = 9 \<or> k = 10 \<or> k = 11 \<or> k = 12"
    using assms(2) by (simp only: atLeastAtMost_iff) arith
  moreover have "p = 101 \<or> p = 103 \<or> p = 107 \<or> p = 109 \<or> p = 113 \<or> p = 127 \<or> p = 131
      \<or> p = 137 \<or> p = 139 \<or> p = 149"
    using assms(1) by (simp add: small_primes_def)
  ultimately show ?thesis by (elim disjE) simp_all
qed

lemma pool_prime:
  assumes "p \<in> set small_primes" and "0 < d" and "d dvd p"
  shows "d = 1 \<or> d = p"
proof (rule trial_division)
  show "1 < p" "p < 169" using pool_range [OF assms(1)] by simp_all
  show "\<forall>k\<in>{2..12}. \<not> k dvd p" using pool_no_small_divisor [OF assms(1)] by blast
qed (use assms in simp_all)

lemma pool_coprime_iff:
  assumes "p \<in> set small_primes"
  shows "coprime p x \<longleftrightarrow> \<not> p dvd x"
proof
  assume c: "coprime p x"
  show "\<not> p dvd x"
  proof
    assume "p dvd x"
    then have "p dvd 1" using c by (metis coprime_def dvd_refl)
    then show False using pool_range [OF assms] by simp
  qed
next
  assume nd: "\<not> p dvd x"
  have "gcd p x dvd p" by simp
  moreover have "0 < gcd p x" using pool_range [OF assms] by (simp add: gcd_pos_int)
  ultimately have "gcd p x = 1 \<or> gcd p x = p" using pool_prime [OF assms] by blast
  moreover have "gcd p x \<noteq> p" using nd by (metis gcd_dvd2)
  ultimately show "coprime p x" by (simp add: coprime_iff_gcd_eq_1)
qed

lemma pool_not_dvd_pred:
  assumes "p \<in> set small_primes" and "q \<in> set small_primes"
  shows "\<not> p dvd (q - 1)"
proof -
  have "p = 101 \<or> p = 103 \<or> p = 107 \<or> p = 109 \<or> p = 113 \<or> p = 127 \<or> p = 131
      \<or> p = 137 \<or> p = 139 \<or> p = 149"
    using assms(1) by (simp add: small_primes_def)
  moreover have "q = 101 \<or> q = 103 \<or> q = 107 \<or> q = 109 \<or> q = 113 \<or> q = 127 \<or> q = 131
      \<or> q = 137 \<or> q = 139 \<or> q = 149"
    using assms(2) by (simp add: small_primes_def)
  ultimately show ?thesis by (elim disjE) simp_all
qed

lemma pool_distinct_coprime:
  assumes "p \<in> set small_primes" and "q \<in> set small_primes" and "p \<noteq> q"
  shows "coprime p q"
proof -
  have "\<not> p dvd q"
  proof
    assume "p dvd q"
    moreover have "0 < p" using pool_range [OF assms(1)] by simp
    ultimately have "p = 1 \<or> p = q" using pool_prime [OF assms(2)] by blast
    then show False using assms(3) pool_range [OF assms(1)] by auto
  qed
  then show ?thesis by (simp add: pool_coprime_iff [OF assms(1)])
qed

lemma lcm_py_pool:
  assumes "p \<in> set small_primes" and "q \<in> set small_primes"
  shows "\<exists>lam. lcm_py (p - 1) (q - 1) = Inr lam \<and> 0 < lam \<and> (p - 1) dvd lam \<and> (q - 1) dvd lam
           \<and> coprime lam (p * q)"
proof -
  define g where "g = gcd (p - 1) (q - 1)"
  define a where "a = (p - 1) div g"
  define b where "b = (q - 1) div g"
  have p1: "0 < p - 1" and q1: "0 < q - 1"
    using pool_range [OF assms(1)] pool_range [OF assms(2)] by simp_all
  have gpos: "0 < g" using p1 by (simp add: g_def gcd_pos_int)
  have pa: "p - 1 = a * g" by (simp add: a_def g_def)
  have qb: "q - 1 = b * g" by (simp add: b_def g_def)
  have apos: "0 < a" using pa p1 gpos by (simp add: zero_less_mult_iff)
  have bpos: "0 < b" using qb q1 gpos by (simp add: zero_less_mult_iff)
  have ale: "a \<le> p - 1"
    using pa p1 apos by (intro zdvd_imp_le) simp_all
  have ble: "b \<le> q - 1"
    using qb q1 bpos by (intro zdvd_imp_le) simp_all
  define lam where "lam = a * (q - 1)"
  have "a * (q - 1) = a * (b * g)" by (simp only: qb [symmetric])
  also have "\<dots> = (a * g) * b" by (simp only: mult_ac)
  also have "\<dots> = (p - 1) * b" by (simp only: pa [symmetric])
  finally have lam2: "lam = (p - 1) * b" by (simp only: lam_def)
  have r: "lcm_py (p - 1) (q - 1) = Inr lam"
    using gpos by (simp add: lcm_py_def lam_def a_def g_def)
  have "\<not> p dvd a" using apos ale by (simp add: zdvd_not_zless)
  moreover have "\<not> p dvd (q - 1)" by (rule pool_not_dvd_pred [OF assms])
  ultimately have cp: "coprime p lam"
    unfolding lam_def by (simp add: coprime_mult_right_iff pool_coprime_iff [OF assms(1)])
  have "\<not> q dvd b" using bpos ble by (simp add: zdvd_not_zless)
  moreover have "\<not> q dvd (p - 1)" by (rule pool_not_dvd_pred [OF assms(2) assms(1)])
  ultimately have cq: "coprime q lam"
    unfolding lam2 by (simp add: coprime_mult_right_iff pool_coprime_iff [OF assms(2)])
  have "coprime lam (p * q)"
    using cp cq by (simp add: coprime_mult_right_iff coprime_commute)
  moreover have "0 < lam" using apos q1 by (simp add: lam_def)
  moreover have "(p - 1) dvd lam" by (simp add: lam2)
  moreover have "(q - 1) dvd lam" by (simp add: lam_def)
  ultimately show ?thesis using r by blast
qed

lemma pool_power_lambda:
  assumes "p \<in> set small_primes" and "\<not> p dvd t" and "0 < lam" and "(p - 1) dvd lam"
  shows "p dvd t ^ nat lam - 1"
proof -
  have f: "t ^ nat (p - 1) mod p = 1"
    using pool_prime [OF assms(1)] pool_range [OF assms(1)] assms(2)
    by (intro fermat_int) auto
  from assms(4) obtain k where k: "lam = (p - 1) * k" by (auto simp: dvd_def)
  have p1: "0 < p - 1" using pool_range [OF assms(1)] by simp
  have kpos: "0 < k" using k assms(3) p1 by (simp add: zero_less_mult_iff)
  have "nat lam = nat (p - 1) * nat k"
    using k p1 kpos by (simp add: nat_mult_distrib)
  then have "t ^ nat lam = (t ^ nat (p - 1)) ^ nat k" by (simp add: power_mult)
  then have "t ^ nat lam mod p = ((t ^ nat (p - 1)) mod p) ^ nat k mod p"
    by (simp add: power_mod)
  then have "t ^ nat lam mod p = 1 mod p" using f by simp
  then show ?thesis by (simp add: mod_eq_dvd_iff)
qed

lemma pool_carmichael:
  assumes p: "p \<in> set small_primes" and q: "q \<in> set small_primes" and "p \<noteq> q"
    and "0 < lam" and "(p - 1) dvd lam" and "(q - 1) dvd lam"
    and t: "gcd t (p * q) = 1"
  shows "t ^ (nat lam * nat (p * q)) mod (p * q * (p * q)) = 1"
proof -
  define n where "n = p * q"
  have ct: "coprime (p * q) t" using t by (simp add: coprime_iff_gcd_eq_1 gcd.commute)
  then have "coprime p t" "coprime q t" by (simp_all add: coprime_mult_left_iff)
  then have "\<not> p dvd t" "\<not> q dvd t"
    by (simp_all add: pool_coprime_iff [OF p, symmetric] pool_coprime_iff [OF q, symmetric])
  then have "p dvd t ^ nat lam - 1" "q dvd t ^ nat lam - 1"
    using assms by (simp_all add: pool_power_lambda)
  moreover have "coprime p q" by (rule pool_distinct_coprime [OF assms(1-3)])
  ultimately have "p * q dvd t ^ nat lam - 1" by (simp add: divides_mult)
  then obtain k where "t ^ nat lam - 1 = n * k" by (auto simp: dvd_def n_def)
  then have tk: "t ^ nat lam = 1 + k * n" by (simp add: algebra_simps)
  have npos: "1 < n" using pool_range [OF p] pool_range [OF q]
    unfolding n_def by (intro less_1_mult) simp_all
  have nnpos: "1 < n * n" using npos by (intro less_1_mult)
  have "t ^ (nat lam * nat n) = (1 + k * n) ^ nat n" by (simp add: power_mult tk)
  then have "t ^ (nat lam * nat n) mod (n * n) = (1 + int (nat n) * k * n) mod (n * n)"
    by (simp only: one_plus_mult_power)
  also have "1 + int (nat n) * k * n = 1 + k * (n * n)" using npos by (simp add: mult_ac)
  also have "(1 + k * (n * n)) mod (n * n) = 1 mod (n * n)" by (rule mod_mult_self1)
  also have "\<dots> = 1" using nnpos by simp
  finally show ?thesis by (simp add: n_def)
qed

section \<open>Key generation, encryption and decryption\<close>

lemma py_pow_pos: "0 < M \<Longrightarrow> 0 \<le> e \<Longrightarrow> py_pow b e M = Inr ((b ^ nat e) mod M)"
  by (simp add: py_pow_def modpow_eq Let_def)

lemma random_choice_mem: "xs \<noteq> [] \<Longrightarrow> \<exists>x. random_choice xs k = Inr x \<and> x \<in> set xs"
  by (simp add: random_choice_def)

lemma draw_primes:
  "\<exists>p q. random_choice small_primes k1 = Inr p
      \<and> random_choice (filter (\<lambda>x. x \<noteq> p) small_primes) k2 = Inr q
      \<and> p \<in> set small_primes \<and> q \<in> set small_primes \<and> p \<noteq> q"
proof -
  have "small_primes \<noteq> []" by (simp add: small_primes_def)
  then obtain p where p: "random_choice small_primes k1 = Inr p" "p \<in> set small_primes"
    using random_choice_mem by blast
  have "101 \<in> set small_primes" "103 \<in> set small_primes" by (simp_all add: small_primes_def)
  moreover have "(101::int) \<noteq> 103" by simp
  ultimately have "\<exists>x\<in>set small_primes. x \<noteq> p" by metis
  then have "filter (\<lambda>x. x \<noteq> p) small_primes \<noteq> []" by (simp add: filter_empty_conv)
  then obtain q where q: "random_choice (filter (\<lambda>x. x \<noteq> p) small_primes) k2 = Inr q"
      "q \<in> set (filter (\<lambda>x. x \<noteq> p) small_primes)"
    using random_choice_mem by blast
  then have "q \<in> set small_primes" "p \<noteq> q" by auto
  with p q show ?thesis by blast
qed

lemma pool_modulus:
  assumes "p \<in> set small_primes" and "q \<in> set small_primes"
  shows "1 < p * q"
  using pool_range [OF assms(1)] pool_range [OF assms(2)] by (intro less_1_mult) simp_all

lemma generator_power:
  fixes n :: int
  assumes "1 < n"
  shows "(n + 1) ^ j mod (n * n) = 1 + (int j mod n) * n"
proof -
  have "(n + 1) ^ j = (1 + 1 * n) ^ j" by (simp add: add.commute)
  then have "(n + 1) ^ j mod (n * n) = (1 + int j * 1 * n) mod (n * n)"
    by (simp only: one_plus_mult_power)
  then show ?thesis using lin_mod_sq [OF assms, of "int j"] by simp
qed

lemma L_linear: "n \<noteq> 0 \<Longrightarrow> L n (1 + y * n) = Inr y"
  by (simp add: L_def)

lemma generatePaillierKey_result:
  "\<exists>p q lam mu.
     generatePaillierKey bits k1 k2
       = Inr (PaillierPublicKey (p * q) (p * q + 1), PaillierPrivateKey lam mu)
     \<and> random_choice small_primes k1 = Inr p
     \<and> random_choice (filter (\<lambda>x. x \<noteq> p) small_primes) k2 = Inr q
     \<and> p \<in> set small_primes \<and> q \<in> set small_primes \<and> p \<noteq> q
     \<and> lcm_py (p - 1) (q - 1) = Inr lam \<and> 0 < lam \<and> (p - 1) dvd lam \<and> (q - 1) dvd lam
     \<and> py_pow (p * q + 1) lam (p * q * (p * q)) = Inr (1 + (lam mod (p * q)) * (p * q))
     \<and> modInv (lam mod (p * q)) (p * q) = Inr mu
     \<and> 0 \<le> mu \<and> mu < p * q \<and> (lam * mu) mod (p * q) = 1"
proof -
  obtain p q where pq: "random_choice small_primes k1 = Inr p"
      "random_choice (filter (\<lambda>x. x \<noteq> p) small_primes) k2 = Inr q"
      "p \<in> set small_primes" "q \<in> set small_primes" "p \<noteq> q"
    using draw_primes by blast
  define n where "n = p * q"
  have n1: "1 < n" unfolding n_def by (rule pool_modulus [OF pq(3,4)])
  have nn: "0 < n * n" using n1 by simp
  obtain lam where lam: "lcm_py (p - 1) (q - 1) = Inr lam" "0 < lam" "(p - 1) dvd lam"
      "(q - 1) dvd lam" "coprime lam n"
    using lcm_py_pool [OF pq(3,4)] unfolding n_def by blast
  have x: "py_pow (n + 1) lam (n * n) = Inr (1 + (lam mod n) * n)"
    using py_pow_pos [OF nn, of lam "n + 1"] lam(2) generator_power [OF n1, of "nat lam"]
    by simp
  have l: "L n (1 + (lam mod n) * n) = Inr (lam mod n)"
    using n1 by (intro L_linear) simp
  have "gcd lam n = 1" using lam(5) by (simp only: coprime_iff_gcd_eq_1)
  then have "gcd (lam mod n) n = 1"
    using gcd_red_int [of lam n] by (simp add: gcd.commute)
  from modInv_ok [OF n1 this] obtain mu where mu: "modInv (lam mod n) n = Inr mu" "0 \<le> mu" "mu < n"
      "((lam mod n) * mu) mod n = 1"
    by blast
  have inv: "(lam * mu) mod n = 1" using mu(4) by (simp add: mod_mult_left_eq)
  have "generatePaillierKey bits k1 k2
      = Inr (PaillierPublicKey n (n + 1), PaillierPrivateKey lam mu)"
    using pq(1,2) lam(1) x l mu(1)
    by (simp add: generatePaillierKey_def Let_def n_def [symmetric])
  then show ?thesis
    using pq lam(1-4) x mu(1-3) inv unfolding n_def by blast
qed

lemma encrypt_explicit:
  assumes "0 \<le> m" and "m < n"
  shows "paillier_encrypt rnd (PaillierPublicKey n g) m (Some r)
     = Some (Inr ((g ^ nat m mod (n * n)) * (r ^ nat n mod (n * n)) mod (n * n)))"
proof -
  have n: "0 < n" using assms by simp
  then have nn: "0 < n * n" by simp
  show ?thesis
    using assms n nn
    by (simp add: paillier_encrypt_def PaillierPublicKey_def py_pow_pos py_mod_def Let_def)
qed

lemma encrypt_out_of_range:
  "\<not> (0 \<le> m \<and> m < n) \<Longrightarrow>
     paillier_encrypt rnd (PaillierPublicKey n g) m ropt = Some (Inl ValueError)"
  by (simp add: paillier_encrypt_def PaillierPublicKey_def Let_def)

lemma decrypt_linear:
  assumes "1 < n" and "0 \<le> lam"
    and c: "c ^ nat lam mod (n * n) = (1 + x * n) mod (n * n)"
  shows "paillier_decrypt (PaillierPublicKey n g) (PaillierPrivateKey lam mu) c
     = Inr ((x * mu) mod n)"
proof -
  have nn: "0 < n * n" using assms(1) by simp
  have "py_pow c lam (n * n) = Inr (1 + (x mod n) * n)"
    using py_pow_pos [OF nn assms(2), of c] c lin_mod_sq [OF assms(1), of x] by simp
  moreover have "L n (1 + (x mod n) * n) = Inr (x mod n)"
    using assms(1) by (intro L_linear) simp
  moreover have "py_mod ((x mod n) * mu) n = Inr ((x * mu) mod n)"
    using assms(1) by (simp add: py_mod_def mod_mult_left_eq)
  ultimately show ?thesis
    by (simp add: paillier_decrypt_def PaillierPublicKey_def PaillierPrivateKey_def Let_def)
qed

lemma decrypt_cipher:
  assumes key: "generatePaillierKey bits k1 k2 = Inr (pub, priv)"
    and t: "gcd t (pub_n pub) = 1"
    and c: "c mod (pub_n_sq pub) = ((pub_n pub + 1) ^ s * t ^ nat (pub_n pub)) mod (pub_n_sq pub)"
  shows "paillier_decrypt pub priv c = Inr (int s mod pub_n pub)"
proof -
  obtain p q lam mu where k:
      "generatePaillierKey bits k1 k2
         = Inr (PaillierPublicKey (p * q) (p * q + 1), PaillierPrivateKey lam mu)"
      "p \<in> set small_primes" "q \<in> set small_primes" "p \<noteq> q"
      "0 < lam" "(p - 1) dvd lam" "(q - 1) dvd lam" "(lam * mu) mod (p * q) = 1"
    using generatePaillierKey_result [of bits k1 k2] by blast
  define n where "n = p * q"
  define N where "N = n * n"
  have pub: "pub = PaillierPublicKey n (n + 1)" and priv: "priv = PaillierPrivateKey lam mu"
    using key k(1) by (simp_all add: n_def)
  have pn: "pub_n pub = n" "pub_n_sq pub = N" by (simp_all add: pub PaillierPublicKey_def N_def)
  have n1: "1 < n" unfolding n_def by (rule pool_modulus [OF k(2,3)])
  have N1: "1 < N" unfolding N_def using n1 by (intro less_1_mult)
  have tn: "gcd t (p * q) = 1" using t pn by (simp add: n_def)
  have car: "t ^ (nat lam * nat n) mod N = 1"
    using pool_carmichael [OF k(2,3,4,5,6,7) tn] by (simp add: n_def N_def)
  have gen: "(n + 1) ^ (s * nat lam) mod N = (1 + (int s * lam) * n) mod N"
  proof -
    have "(n + 1) ^ (s * nat lam) = (1 + 1 * n) ^ (s * nat lam)" by (simp add: add.commute)
    then have "(n + 1) ^ (s * nat lam) mod N = (1 + int (s * nat lam) * 1 * n) mod N"
      unfolding N_def by (simp only: one_plus_mult_power)
    then show ?thesis using k(5) by simp
  qed
  have "c ^ nat lam mod N = (c mod N) ^ nat lam mod N" by (simp add: power_mod)
  also have "\<dots> = (((n + 1) ^ s * t ^ nat n) mod N) ^ nat lam mod N"
    using c pn by simp
  also have "\<dots> = ((n + 1) ^ s * t ^ nat n) ^ nat lam mod N" by (simp add: power_mod)
  also have "((n + 1) ^ s * t ^ nat n) ^ nat lam
      = (n + 1) ^ (s * nat lam) * t ^ (nat lam * nat n)"
    by (simp add: power_mult_distrib power_mult [symmetric] mult.commute)
  also have "\<dots> mod N = ((n + 1) ^ (s * nat lam) mod N) * (t ^ (nat lam * nat n) mod N) mod N"
    by (simp add: mod_mult_eq)
  also have "\<dots> = (1 + (int s * lam) * n) mod N"
    by (simp only: car gen mult_1_right mod_mod_trivial)
  finally have "c ^ nat lam mod (n * n) = (1 + (int s * lam) * n) mod (n * n)"
    by (simp only: N_def)
  then have "paillier_decrypt pub priv c = Inr (((int s * lam) * mu) mod n)"
    unfolding pub priv using n1 k(5) by (intro decrypt_linear) simp_all
  also have "((int s * lam) * mu) mod n = (int s * ((lam * mu) mod n)) mod n"
    by (simp add: mod_mult_right_eq mult.assoc)
  also have "\<dots> = int s mod n" using k(8) by (simp add: n_def)
  finally show ?thesis by (simp add: pn)
qed

section \<open>The claims\<close>

subsection \<open>Generated keys\<close>

lemma generated_key_shape:
  assumes "generatePaillierKey bits k1 k2 = Inr (pub, priv)"
  shows "\<exists>n. 1 < n \<and> pub = PaillierPublicKey n (n + 1)"
proof -
  obtain p q lam mu where k:
      "generatePaillierKey bits k1 k2
         = Inr (PaillierPublicKey (p * q) (p * q + 1), PaillierPrivateKey lam mu)"
      "p \<in> set small_primes" "q \<in> set small_primes"
    using generatePaillierKey_result [of bits k1 k2] by blast
  then show ?thesis using assms pool_modulus [OF k(2,3)] by auto
qed

lemma round_trip:
  assumes key: "generatePaillierKey bits k1 k2 = Inr (pub, priv)"
    and m: "0 \<le> m" "m < pub_n pub" and r: "gcd r (pub_n pub) = 1"
  shows "\<exists>c. paillier_encrypt rnd pub m (Some r) = Some (Inr c)
           \<and> paillier_decrypt pub priv c = Inr m"
proof -
  obtain n where n: "1 < n" "pub = PaillierPublicKey n (n + 1)"
    using generated_key_shape [OF key] by blast
  have pn: "pub_n pub = n" "pub_n_sq pub = n * n" by (simp_all add: n(2) PaillierPublicKey_def)
  define c where "c = ((n + 1) ^ nat m mod (n * n)) * (r ^ nat n mod (n * n)) mod (n * n)"
  have enc: "paillier_encrypt rnd pub m (Some r) = Some (Inr c)"
    unfolding n(2) c_def using m pn by (intro encrypt_explicit) simp_all
  have "c mod (n * n) = ((n + 1) ^ nat m * r ^ nat n) mod (n * n)"
    by (simp add: c_def mod_mult_eq)
  then have "paillier_decrypt pub priv c = Inr (int (nat m) mod pub_n pub)"
    using r pn by (intro decrypt_cipher [OF key]) simp_all
  then have "paillier_decrypt pub priv c = Inr m" using m by simp
  with enc show ?thesis by blast
qed

lemma homomorphic_sum:
  assumes key: "generatePaillierKey bits k1 k2 = Inr (pub, priv)"
    and a: "0 \<le> a" "a < pub_n pub" and b: "0 \<le> b" "b < pub_n pub"
    and r: "gcd r1 (pub_n pub) = 1" "gcd r2 (pub_n pub) = 1"
  shows "\<exists>c1 c2 c. paillier_encrypt rnd pub a (Some r1) = Some (Inr c1)
           \<and> paillier_encrypt rnd' pub b (Some r2) = Some (Inr c2)
           \<and> homomorphic_add pub c1 c2 = Inr c
           \<and> paillier_decrypt pub priv c = Inr ((a + b) mod pub_n pub)"
proof -
  obtain n where n: "1 < n" "pub = PaillierPublicKey n (n + 1)"
    using generated_key_shape [OF key] by blast
  define N where "N = n * n"
  have pn: "pub_n pub = n" "pub_n_sq pub = N" by (simp_all add: n(2) PaillierPublicKey_def N_def)
  have N0: "N \<noteq> 0" using n(1) by (simp add: N_def)
  define c1 where "c1 = ((n + 1) ^ nat a mod N) * (r1 ^ nat n mod N) mod N"
  define c2 where "c2 = ((n + 1) ^ nat b mod N) * (r2 ^ nat n mod N) mod N"
  define c where "c = (c1 * c2) mod N"
  have e1: "paillier_encrypt rnd pub a (Some r1) = Some (Inr c1)"
    unfolding n(2) c1_def N_def using a pn by (intro encrypt_explicit) simp_all
  have e2: "paillier_encrypt rnd' pub b (Some r2) = Some (Inr c2)"
    unfolding n(2) c2_def N_def using b pn by (intro encrypt_explicit) simp_all
  have add: "homomorphic_add pub c1 c2 = Inr c"
    using N0 by (simp add: homomorphic_add_def py_mod_def pn c_def)
  have "c1 = ((n + 1) ^ nat a * r1 ^ nat n) mod N" by (simp add: c1_def mod_mult_eq)
  moreover have "c2 = ((n + 1) ^ nat b * r2 ^ nat n) mod N" by (simp add: c2_def mod_mult_eq)
  ultimately have "c mod N = (((n + 1) ^ nat a * r1 ^ nat n) * ((n + 1) ^ nat b * r2 ^ nat n)) mod N"
    by (simp add: c_def mod_mult_eq)
  also have "((n + 1) ^ nat a * r1 ^ nat n) * ((n + 1) ^ nat b * r2 ^ nat n)
      = (n + 1) ^ (nat a + nat b) * (r1 * r2) ^ nat n"
    by (simp add: power_add power_mult_distrib mult_ac)
  finally have cm: "c mod N = ((n + 1) ^ (nat a + nat b) * (r1 * r2) ^ nat n) mod N" .
  have "coprime r1 n" "coprime r2 n" using r pn by (simp_all add: coprime_iff_gcd_eq_1)
  then have "coprime (r1 * r2) n" by (simp add: coprime_mult_left_iff)
  then have "gcd (r1 * r2) (pub_n pub) = 1" by (simp add: pn coprime_iff_gcd_eq_1)
  then have "paillier_decrypt pub priv c = Inr (int (nat a + nat b) mod pub_n pub)"
    using cm pn by (intro decrypt_cipher [OF key]) simp_all
  then have "paillier_decrypt pub priv c = Inr ((a + b) mod pub_n pub)"
    using a b by simp
  with e1 e2 add show ?thesis by blast
qed

lemmas key_eval =
  generatePaillierKey_def random_choice_def small_primes_def lcm_py_def py_pow_def
  L_def modInv_def PaillierPublicKey_def PaillierPrivateKey_def Let_def eval_rules

lemma key_101_103:
  "generatePaillierKey 512 0 0
     = Inr (PaillierPublicKey 10403 10404, PaillierPrivateKey 5100 3331)"
  by (simp add: key_eval)

subsection \<open>C1: encryption followed by decryption\<close>

text \<open>
  Claim C1 (round trip). For every keypair \<open>(pub, priv)\<close> that \<open>generatePaillierKey\<close>
  returns, every plaintext \<open>m\<close> with \<open>0 \<le> m < pub.n\<close> and every randomizer \<open>r\<close> with
  \<open>1 \<le> r < pub.n\<close> coprime to \<open>pub.n\<close>, \<open>paillier_encrypt(pub, m, r)\<close> returns a ciphertext
  and \<open>paillier_decrypt\<close> maps it back to \<open>m\<close>, whatever \<open>r\<close> was.
\<close>

theorem paillier_round_trip:
  assumes "generatePaillierKey bits k1 k2 = Inr (pub, priv)"
    and "0 \<le> m" and "m < pub_n pub"
    and "1 \<le> r" and "r < pub_n pub" and "gcd r (pub_n pub) = 1"
  shows "\<exists>c. paillier_encrypt rnd pub m (Some r) = Some (Inr c)
           \<and> paillier_decrypt pub priv c = Inr m"
  using assms(1,2,3,6) by (rule round_trip)

text \<open>
  C1 at the key of the primes 101 and 103, plaintext 5 and randomizer 2.
\<close>

theorem paillier_round_trip_witness:
  "generatePaillierKey 512 0 0
     = Inr (PaillierPublicKey 10403 10404, PaillierPrivateKey 5100 3331)
   \<and> gcd 2 (pub_n (PaillierPublicKey 10403 10404)) = (1::int)
   \<and> paillier_encrypt (\<lambda>i. 0) (PaillierPublicKey 10403 10404) 5 (Some 2) = Some (Inr 101323006)
   \<and> paillier_decrypt (PaillierPublicKey 10403 10404) (PaillierPrivateKey 5100 3331) 101323006
       = Inr 5"
proof -
  have g: "gcd 2 (pub_n (PaillierPublicKey 10403 10404)) = (1::int)"
    by (simp add: PaillierPublicKey_def eval_rules)
  have e: "paillier_encrypt (\<lambda>i. 0) (PaillierPublicKey 10403 10404) 5 (Some 2) = Some (Inr 101323006)"
    by (simp add: paillier_encrypt_def py_mod_def key_eval)
  have "\<exists>c. paillier_encrypt (\<lambda>i. 0) (PaillierPublicKey 10403 10404) 5 (Some 2) = Some (Inr c)
      \<and> paillier_decrypt (PaillierPublicKey 10403 10404) (PaillierPrivateKey 5100 3331) c = Inr 5"
    using g by (intro paillier_round_trip [OF key_101_103]) (simp_all add: PaillierPublicKey_def)
  with e key_101_103 g show ?thesis by auto
qed

subsection \<open>C2: adding under encryption\<close>

text \<open>
  Claim C2 (additive homomorphism). For every generated keypair, plaintexts \<open>a\<close>, \<open>b\<close> in
  \<open>[0, pub.n)\<close> and valid randomizers \<open>r1\<close>, \<open>r2\<close>, decrypting the \<open>homomorphic_add\<close> of the
  two encryptions gives \<open>(a + b) mod pub.n\<close>.
\<close>

theorem paillier_additive_homomorphism:
  assumes "generatePaillierKey bits k1 k2 = Inr (pub, priv)"
    and "0 \<le> a" and "a < pub_n pub" and "0 \<le> b" and "b < pub_n pub"
    and "1 \<le> r1" and "r1 < pub_n pub" and "gcd r1 (pub_n pub) = 1"
    and "1 \<le> r2" and "r2 < pub_n pub" and "gcd r2 (pub_n pub) = 1"
  shows "\<exists>c1 c2 c. paillier_encrypt rnd pub a (Some r1) = Some (Inr c1)
           \<and> paillier_encrypt rnd' pub b (Some r2) = Some (Inr c2)
           \<and> homomorphic_add pub c1 c2 = Inr c
           \<and> paillier_decrypt pub priv c = Inr ((a + b) mod pub_n pub)"
  using assms(1,2,3,4,5,8,11) by (rule homomorphic_sum)

text \<open>
  C2 at the key of 101 and 103 with \<open>a = 10400\<close>, \<open>b = 7\<close>: the sum wraps around to 4.
\<close>

theorem paillier_additive_homomorphism_witness:
  "generatePaillierKey 512 0 0
     = Inr (PaillierPublicKey 10403 10404, PaillierPrivateKey 5100 3331)
   \<and> gcd 2 (pub_n (PaillierPublicKey 10403 10404)) = (1::int)
   \<and> gcd 3 (pub_n (PaillierPublicKey 10403 10404)) = (1::int)
   \<and> (\<exists>c1 c2 c.
         paillier_encrypt (\<lambda>i. 0) (PaillierPublicKey 10403 10404) 10400 (Some 2) = Some (Inr c1)
       \<and> paillier_encrypt (\<lambda>i. 0) (PaillierPublicKey 10403 10404) 7 (Some 3) = Some (Inr c2)
       \<and> homomorphic_add (PaillierPublicKey 10403 10404) c1 c2 = Inr c
       \<and> paillier_decrypt (PaillierPublicKey 10403 10404) (PaillierPrivateKey 5100 3331) c
           = Inr 4)"
proof -
  have g: "gcd 2 (pub_n (PaillierPublicKey 10403 10404)) = (1::int)"
      "gcd 3 (pub_n (PaillierPublicKey 10403 10404)) = (1::int)"
    by (simp_all add: PaillierPublicKey_def eval_rules)
  have "(10400 + 7) mod pub_n (PaillierPublicKey 10403 10404) = (4::int)"
    by (simp add: PaillierPublicKey_def)
  then show ?thesis
    using g
      paillier_additive_homomorphism [OF key_101_103, of 10400 7 2 3 "\<lambda>i. 0" "\<lambda>i. 0"]
    by (simp add: key_101_103 PaillierPublicKey_def)
qed

subsection \<open>C3: the order of aggregation\<close>

lemma add_many_loop_prod:
  "cs \<noteq> [] \<Longrightarrow>
     add_many_loop pub r cs =
       (if pub_n_sq pub = 0 then Inl ZeroDivisionError
        else Inr ((r * prod_list cs) mod pub_n_sq pub))"
proof (induction cs arbitrary: r)
  case Nil
  then show ?case by simp
next
  case (Cons c cs)
  show ?case
  proof (cases "cs = []")
    case True
    then show ?thesis by (simp add: py_mod_def)
  next
    case False
    then show ?thesis
      using Cons.IH [OF False, of "(r * c) mod pub_n_sq pub"]
      by (simp add: py_mod_def mod_mult_left_eq mult.assoc)
  qed
qed

lemma homomorphic_add_many_perm:
  assumes "mset cs = mset cs'"
  shows "homomorphic_add_many pub cs = homomorphic_add_many pub cs'"
proof (cases "cs = []")
  case True
  then show ?thesis using assms by simp
next
  case False
  then have ne: "cs' \<noteq> []" using assms by auto
  have "prod_list cs = prod_list cs'"
    using assms by (metis prod_mset_prod_list)
  then show ?thesis
    using False ne by (simp add: homomorphic_add_many_def add_many_loop_prod)
qed

text \<open>
  Claim C3 (fold consistency). For every public key, \<open>homomorphic_add_many\<close> returns the same
  result on any two lists that are permutations of each other, and \<open>homomorphic_add\<close> is
  commutative and associative (the exception of a zero modulus included).
\<close>

theorem homomorphic_add_many_fold_consistency:
  assumes "mset cs = mset cs'"
  shows "homomorphic_add_many pub cs = homomorphic_add_many pub cs'
       \<and> homomorphic_add pub c1 c2 = homomorphic_add pub c2 c1
       \<and> (case homomorphic_add pub c1 c2 of Inl e \<Rightarrow> Inl e
            | Inr c12 \<Rightarrow> homomorphic_add pub c12 c3)
         = (case homomorphic_add pub c2 c3 of Inl e \<Rightarrow> Inl e
            | Inr c23 \<Rightarrow> homomorphic_add pub c1 c23)"
proof -
  have "homomorphic_add pub c1 c2 = homomorphic_add pub c2 c1"
    by (simp add: homomorphic_add_def mult.commute)
  moreover have "(case homomorphic_add pub c1 c2 of Inl e \<Rightarrow> Inl e
            | Inr c12 \<Rightarrow> homomorphic_add pub c12 c3)
         = (case homomorphic_add pub c2 c3 of Inl e \<Rightarrow> Inl e
            | Inr c23 \<Rightarrow> homomorphic_add pub c1 c23)"
    by (simp add: homomorphic_add_def py_mod_def mod_mult_left_eq mod_mult_right_eq mult.assoc)
  ultimately show ?thesis using homomorphic_add_many_perm [OF assms] by simp
qed

text \<open>
  C3 on the lists \<open>[4, 9, 25]\<close> and \<open>[25, 4, 9]\<close>.
\<close>

theorem homomorphic_add_many_fold_consistency_witness:
  "mset [4, 9, 25 :: int] = mset [25, 4, 9]
   \<and> homomorphic_add_many (PaillierPublicKey 10403 10404) [4, 9, 25] = Inr 900
   \<and> homomorphic_add_many (PaillierPublicKey 10403 10404) [25, 4, 9] = Inr 900"
proof -
  have m: "mset [4, 9, 25 :: int] = mset [25, 4, 9]" by simp
  have v: "homomorphic_add_many (PaillierPublicKey 10403 10404) [4, 9, 25] = Inr 900"
    by (simp add: homomorphic_add_many_def py_mod_def PaillierPublicKey_def)
  show ?thesis
    using homomorphic_add_many_fold_consistency [OF m, of "PaillierPublicKey 10403 10404"] m v
    by simp
qed

subsection \<open>C4: the plaintext range\<close>

text \<open>
  Claim C4 (range check of encrypt). With a randomizer passed in, \<open>paillier_encrypt\<close> raises
  exactly when \<open>m\<close> is outside \<open>[0, pub.n)\<close>, and what it raises is the \<open>ValueError\<close> of the range
  check; inside the range it returns a ciphertext. For a generated keypair and a valid
  randomizer, the plaintexts \<open>0\<close> and \<open>n - 1\<close> encrypt and decrypt back to themselves, and the
  plaintext \<open>n\<close> is rejected, with or without a randomizer.
\<close>

theorem paillier_encrypt_range_check:
  assumes "generatePaillierKey bits k1 k2 = Inr (pub, priv)"
    and "1 \<le> r" and "r < pub_n pub" and "gcd r (pub_n pub) = 1"
  shows "(paillier_encrypt rnd0 (PaillierPublicKey n0 g0) m0 (Some r0) = Some (Inl ValueError))
           = (\<not> (0 \<le> m0 \<and> m0 < n0))
       \<and> (\<exists>c. paillier_encrypt rnd0 (PaillierPublicKey n0 g0) m0 (Some r0) = Some (Inr c))
           = (0 \<le> m0 \<and> m0 < n0)
       \<and> (\<exists>c. paillier_encrypt rnd pub 0 (Some r) = Some (Inr c)
              \<and> paillier_decrypt pub priv c = Inr 0)
       \<and> (\<exists>c. paillier_encrypt rnd pub (pub_n pub - 1) (Some r) = Some (Inr c)
              \<and> paillier_decrypt pub priv c = Inr (pub_n pub - 1))
       \<and> paillier_encrypt rnd pub (pub_n pub) ropt = Some (Inl ValueError)"
proof -
  obtain n where n: "1 < n" "pub = PaillierPublicKey n (n + 1)"
    using generated_key_shape [OF assms(1)] by blast
  have pn: "pub_n pub = n" by (simp add: n(2) PaillierPublicKey_def)
  have a: "(paillier_encrypt rnd0 (PaillierPublicKey n0 g0) m0 (Some r0) = Some (Inl ValueError))
           = (\<not> (0 \<le> m0 \<and> m0 < n0))"
    using encrypt_explicit [of m0 n0 rnd0 g0 r0] encrypt_out_of_range [of m0 n0 rnd0 g0 "Some r0"]
    by (cases "0 \<le> m0 \<and> m0 < n0") auto
  have b: "(\<exists>c. paillier_encrypt rnd0 (PaillierPublicKey n0 g0) m0 (Some r0) = Some (Inr c))
           = (0 \<le> m0 \<and> m0 < n0)"
    using encrypt_explicit [of m0 n0 rnd0 g0 r0] encrypt_out_of_range [of m0 n0 rnd0 g0 "Some r0"]
    by (cases "0 \<le> m0 \<and> m0 < n0") auto
  have c: "\<exists>c. paillier_encrypt rnd pub 0 (Some r) = Some (Inr c)
              \<and> paillier_decrypt pub priv c = Inr 0"
    using n(1) pn assms(4) by (intro round_trip [OF assms(1)]) simp_all
  have d: "\<exists>c. paillier_encrypt rnd pub (pub_n pub - 1) (Some r) = Some (Inr c)
              \<and> paillier_decrypt pub priv c = Inr (pub_n pub - 1)"
    using n(1) pn assms(4) by (intro round_trip [OF assms(1)]) simp_all
  have e: "paillier_encrypt rnd pub (pub_n pub) ropt = Some (Inl ValueError)"
    unfolding n(2) pn [unfolded n(2)] by (intro encrypt_out_of_range) simp
  from a b c d e show ?thesis by blast
qed

text \<open>
  C4 at the key of 101 and 103: 10403 and -1 are rejected, 0 and 10402 round-trip.
\<close>

theorem paillier_encrypt_range_check_witness:
  "generatePaillierKey 512 0 0
     = Inr (PaillierPublicKey 10403 10404, PaillierPrivateKey 5100 3331)
   \<and> gcd 2 (pub_n (PaillierPublicKey 10403 10404)) = (1::int)
   \<and> paillier_encrypt (\<lambda>i. 0) (PaillierPublicKey 10403 10404) 10403 (Some 2) = Some (Inl ValueError)
   \<and> paillier_encrypt (\<lambda>i. 0) (PaillierPublicKey 10403 10404) (- 1) (Some 2) = Some (Inl ValueError)
   \<and> (\<exists>c. paillier_encrypt (\<lambda>i. 0) (PaillierPublicKey 10403 10404) 0 (Some 2) = Some (Inr c)
          \<and> paillier_decrypt (PaillierPublicKey 10403 10404) (PaillierPrivateKey 5100 3331) c
              = Inr 0)
   \<and> (\<exists>c. paillier_encrypt (\<lambda>i. 0) (PaillierPublicKey 10403 10404) 10402 (Some 2) = Some (Inr c)
          \<and> paillier_decrypt (PaillierPublicKey 10403 10404) (PaillierPrivateKey 5100 3331) c
              = Inr 10402)"
proof -
  have g: "gcd 2 (pub_n (PaillierPublicKey 10403 10404)) = (1::int)"
    by (simp add: PaillierPublicKey_def eval_rules)
  have n: "pub_n (PaillierPublicKey 10403 10404) = 10403" by (simp add: PaillierPublicKey_def)
  have r: "(1::int) \<le> 2" "2 < pub_n (PaillierPublicKey 10403 10404)" by (simp_all add: n)
  note t = paillier_encrypt_range_check [OF key_101_103 r g]
  show ?thesis
    using t [of "\<lambda>i. 0" 10403 10404 10403 2 "\<lambda>i. 0" None] t [of "\<lambda>i. 0" 10403 10404 "- 1" 2 "\<lambda>i. 0" None] g
    by (simp add: key_101_103 n)
qed

subsection \<open>C5: key generation runs once and returns a keypair\<close>







subsection \<open>C6: vectors of different length\<close>

lemma comprehension_add:
  "comprehension (\<lambda>(a, b). homomorphic_add pub a b) zs =
     (if pub_n_sq pub = 0 \<and> zs \<noteq> [] then Inl ZeroDivisionError
      else Inr (map (\<lambda>(a, b). (a * b) mod pub_n_sq pub) zs))"
  by (induction zs) (auto simp: homomorphic_add_def py_mod_def)

text \<open>
  Claim C6, amended. \<open>add_vectors\<close> checks no lengths: its result has the length of the shorter
  vector and holds the \<open>homomorphic_add\<close> of the entries at each common position; for vectors
  of equal length this is the elementwise sum of both. The only error is the
  \<open>ZeroDivisionError\<close> of a zero modulus.
\<close>

theorem add_vectors_zip_truncation:
  "add_vectors a b pub =
     (if pub_n_sq pub = 0 \<and> a \<noteq> [] \<and> b \<noteq> [] then Inl ZeroDivisionError
      else Inr (map (\<lambda>i. (a ! i * b ! i) mod pub_n_sq pub) [0..<min (length a) (length b)]))
   \<and> (pub_n_sq pub \<noteq> 0 \<longrightarrow>
        (\<exists>v. add_vectors a b pub = Inr v \<and> length v = min (length a) (length b)
           \<and> (\<forall>i<length v. homomorphic_add pub (a ! i) (b ! i) = Inr (v ! i))))"
proof -
  have z: "zip a b = [] \<longleftrightarrow> a = [] \<or> b = []"
    by (cases a; cases b) simp_all
  have m: "map (\<lambda>(x, y). (x * y) mod pub_n_sq pub) (zip a b)
      = map (\<lambda>i. (a ! i * b ! i) mod pub_n_sq pub) [0..<min (length a) (length b)]"
    by (rule nth_equalityI) simp_all
  have first: "add_vectors a b pub =
     (if pub_n_sq pub = 0 \<and> a \<noteq> [] \<and> b \<noteq> [] then Inl ZeroDivisionError
      else Inr (map (\<lambda>i. (a ! i * b ! i) mod pub_n_sq pub) [0..<min (length a) (length b)]))"
    unfolding add_vectors_def comprehension_add m [symmetric] using z by simp
  show ?thesis
  proof (intro conjI impI)
    show "add_vectors a b pub =
     (if pub_n_sq pub = 0 \<and> a \<noteq> [] \<and> b \<noteq> [] then Inl ZeroDivisionError
      else Inr (map (\<lambda>i. (a ! i * b ! i) mod pub_n_sq pub) [0..<min (length a) (length b)]))"
      by (rule first)
  next
    assume "pub_n_sq pub \<noteq> 0"
    then show "\<exists>v. add_vectors a b pub = Inr v \<and> length v = min (length a) (length b)
           \<and> (\<forall>i<length v. homomorphic_add pub (a ! i) (b ! i) = Inr (v ! i))"
      using first by (simp add: homomorphic_add_def py_mod_def)
  qed
qed

text \<open>
  Claim C6 as stated fails: vectors of lengths 2 and 1 are added without an error, the second
  entry of the longer one being dropped.
\<close>

theorem add_vectors_length_counterexample:
  "length [2, 3 :: int] \<noteq> length [5 :: int]
   \<and> add_vectors [2, 3] [5] (PaillierPublicKey 10403 10404) = Inr [10]"
  by (simp add: add_vectors_def homomorphic_add_def py_mod_def PaillierPublicKey_def)

text \<open>
  C6 (amended) on vectors of equal and of different length.
\<close>

theorem add_vectors_zip_truncation_witness:
  "pub_n_sq (PaillierPublicKey 10403 10404) \<noteq> 0
   \<and> add_vectors [2, 3] [5, 7] (PaillierPublicKey 10403 10404) = Inr [10, 21]
   \<and> add_vectors [2, 3, 4] [5, 7] (PaillierPublicKey 10403 10404) = Inr [10, 21]"
proof -
  have u: "[0..<2] = [0, Suc 0]" by (simp add: upt_rec)
  show ?thesis
    using add_vectors_zip_truncation [of "[2, 3]" "[5, 7]" "PaillierPublicKey 10403 10404"]
      add_vectors_zip_truncation [of "[2, 3, 4]" "[5, 7]" "PaillierPublicKey 10403 10404"]
    by (simp add: PaillierPublicKey_def u)
qed

subsection \<open>C7: one-hot votes\<close>

text \<open>
  Claim C7, amended. For \<open>0 \<le> index < k\<close>, \<open>encode_vote(index, k)\<close> is the list of length
  \<open>k\<close> that is 1 at \<open>index\<close> and 0 elsewhere. For \<open>-k \<le> index < 0\<close> it does not fail: the 1
  is at position \<open>index + k\<close>. For every other index it raises \<open>IndexError\<close>.
\<close>

theorem encode_vote_python_index:
  "(0 \<le> index \<and> index < k \<longrightarrow>
      (\<exists>v. encode_vote index k = Inr v \<and> length v = nat k
         \<and> (\<forall>i<nat k. v ! i = (if i = nat index then 1 else 0))))
   \<and> (- k \<le> index \<and> index < 0 \<longrightarrow>
      (\<exists>v. encode_vote index k = Inr v \<and> length v = nat k
         \<and> (\<forall>i<nat k. v ! i = (if i = nat (index + k) then 1 else 0))))
   \<and> (\<not> (- k \<le> index \<and> index < k) \<longrightarrow> encode_vote index k = Inl IndexError)"
proof (intro conjI impI)
  assume "0 \<le> index \<and> index < k"
  then show "\<exists>v. encode_vote index k = Inr v \<and> length v = nat k
         \<and> (\<forall>i<nat k. v ! i = (if i = nat index then 1 else 0))"
    by (simp add: encode_vote_def Let_def nth_list_update)
next
  assume a: "- k \<le> index \<and> index < 0"
  then have "0 < k" by simp
  then have "index + int (nat k) = index + k" by simp
  then show "\<exists>v. encode_vote index k = Inr v \<and> length v = nat k
         \<and> (\<forall>i<nat k. v ! i = (if i = nat (index + k) then 1 else 0))"
    using a by (simp add: encode_vote_def Let_def nth_list_update)
next
  assume "\<not> (- k \<le> index \<and> index < k)"
  then show "encode_vote index k = Inl IndexError"
    by (auto simp: encode_vote_def Let_def)
qed

text \<open>
  Claim C7 as stated fails: the index -1 is outside \<open>[0, 3)\<close>, and a vote is returned.
\<close>

theorem encode_vote_negative_index_counterexample:
  "\<not> (0 \<le> (- 1 :: int) \<and> (- 1 :: int) < 3) \<and> encode_vote (- 1) 3 = Inr [0, 0, 1]"
  by (simp add: encode_vote_def Let_def numeral_3_eq_3)

text \<open>
  C7 (amended) at the indices 1, -3, 3 and -4 for three candidates.
\<close>

theorem encode_vote_python_index_witness:
  "(\<exists>v. encode_vote 1 3 = Inr v \<and> length v = 3 \<and> v ! 0 = 0 \<and> v ! 1 = 1 \<and> v ! 2 = 0)
   \<and> (\<exists>v. encode_vote (- 3) 3 = Inr v \<and> length v = 3 \<and> v ! 0 = 1 \<and> v ! 1 = 0 \<and> v ! 2 = 0)
   \<and> encode_vote 3 3 = Inl IndexError
   \<and> encode_vote (- 4) 3 = Inl IndexError"
proof -
  have s: "(\<forall>i<3. P i) = (P 0 \<and> P 1 \<and> P (2::nat))" for P
    by (auto simp: numeral_3_eq_3 less_Suc_eq numeral_2_eq_2)
  show ?thesis
    using encode_vote_python_index [of 1 3] encode_vote_python_index [of "- 3" 3]
      encode_vote_python_index [of 3 3] encode_vote_python_index [of "- 4" 3]
    by (simp add: s)
qed

subsection \<open>C8: the empty aggregate\<close>

text \<open>
  Claim C8 (empty aggregation). For a generated keypair, \<open>homomorphic_add_many(pub, [])\<close> is
  1, which is also \<open>paillier_encrypt(pub, 0, 1)\<close>, and it decrypts to 0. The value 1 is returned
  for every key whose modulus exceeds 1.
\<close>

theorem homomorphic_add_many_empty:
  assumes "generatePaillierKey bits k1 k2 = Inr (pub, priv)"
  shows "homomorphic_add_many pub [] = Inr 1
       \<and> paillier_encrypt rnd pub 0 (Some 1) = Some (Inr 1)
       \<and> paillier_decrypt pub priv 1 = Inr 0
       \<and> (1 < n0 \<longrightarrow> homomorphic_add_many (PaillierPublicKey n0 g0) [] = Inr 1)"
proof -
  obtain n where n: "1 < n" "pub = PaillierPublicKey n (n + 1)"
    using generated_key_shape [OF assms] by blast
  have pn: "pub_n pub = n" "pub_n_sq pub = n * n" "pub_g pub = n + 1"
    by (simp_all add: n(2) PaillierPublicKey_def)
  have nn: "0 < n * n" "1 < n * n" using n(1) by (simp_all add: less_1_mult)
  have "py_pow (n + 1) 0 (n * n) = Inr 1" "py_pow 1 n (n * n) = Inr 1"
    using nn n(1) by (simp_all add: py_pow_pos)
  then have a: "homomorphic_add_many pub [] = Inr 1"
    using nn n(1) by (simp add: homomorphic_add_many_def pn py_mod_def)
  have "paillier_encrypt rnd pub 0 (Some 1)
      = Some (Inr (((n + 1) ^ nat 0 mod (n * n)) * (1 ^ nat n mod (n * n)) mod (n * n)))"
    unfolding n(2) using n(1) by (intro encrypt_explicit) simp_all
  then have b: "paillier_encrypt rnd pub 0 (Some 1) = Some (Inr 1)" using nn by simp
  have "1 mod (pub_n_sq pub) = ((pub_n pub + 1) ^ 0 * 1 ^ nat (pub_n pub)) mod (pub_n_sq pub)"
    by simp
  then have "paillier_decrypt pub priv 1 = Inr (int 0 mod pub_n pub)"
    by (intro decrypt_cipher [OF assms, of 1 1 0]) simp_all
  then have c: "paillier_decrypt pub priv 1 = Inr 0" by simp
  have d: "homomorphic_add_many (PaillierPublicKey n0 g0) [] = Inr 1" if "1 < n0"
  proof -
    have "0 < n0 * n0" "1 < n0 * n0" using that by (simp_all add: less_1_mult)
    then show ?thesis
      using that
      by (simp add: homomorphic_add_many_def PaillierPublicKey_def py_pow_pos py_mod_def)
  qed
  from a b c d show ?thesis by blast
qed

text \<open>
  C8 at the key of 101 and 103.
\<close>

theorem homomorphic_add_many_empty_witness:
  "generatePaillierKey 512 0 0
     = Inr (PaillierPublicKey 10403 10404, PaillierPrivateKey 5100 3331)
   \<and> homomorphic_add_many (PaillierPublicKey 10403 10404) [] = Inr 1
   \<and> paillier_encrypt (\<lambda>i. 0) (PaillierPublicKey 10403 10404) 0 (Some 1) = Some (Inr 1)
   \<and> paillier_decrypt (PaillierPublicKey 10403 10404) (PaillierPrivateKey 5100 3331) 1 = Inr 0"
  using homomorphic_add_many_empty [OF key_101_103, of "\<lambda>i. 0" 2 3] by (simp add: key_101_103)

subsection \<open>C9: the winner\<close>

lemma foldl_best_Max:
  "foldl (\<lambda>best y. if y > best then y else best) x rest = Max (set (x # rest))"
  for x :: int
proof (induction rest arbitrary: x)
  case Nil
  show ?case by simp
next
  case (Cons y ys)
  have "(if y > x then y else x) = max x y" by (simp add: max_def)
  then have "foldl (\<lambda>best y. if y > best then y else best) x (y # ys)
      = Max (set (max x y # ys))"
    using Cons.IH [of "max x y"] by simp
  also have "\<dots> = Max (set (x # y # ys))"
    by (cases "ys = []") (simp_all add: max.assoc)
  finally show ?case .
qed

lemma py_index_first:
  "x \<in> set xs \<Longrightarrow>
     \<exists>i. py_index xs x = Inr i \<and> i < length xs \<and> xs ! i = x \<and> (\<forall>j<i. xs ! j \<noteq> x)"
proof (induction xs)
  case Nil
  then show ?case by simp
next
  case (Cons y ys)
  show ?case
  proof (cases "y = x")
    case True
    then show ?thesis by simp
  next
    case False
    then have "x \<in> set ys" using Cons.prems by simp
    then obtain i where i: "py_index ys x = Inr i" "i < length ys" "ys ! i = x"
        "\<forall>j<i. ys ! j \<noteq> x"
      using Cons.IH by blast
    have "\<forall>j<Suc i. (y # ys) ! j \<noteq> x"
      using False i(4) by (auto simp: nth_Cons split: nat.splits)
    then show ?thesis using False i(1,2,3) by simp
  qed
qed

text \<open>
  Claim C9 (winner). For a non-empty tally, \<open>tally.index(max(tally))\<close> is a position holding
  the maximum, and every earlier position holds a strictly smaller value: among equal maxima
  the lowest index wins. The tallies \<open>[2, 2]\<close> and \<open>[2, 1, 2, 1]\<close> give index 0.
\<close>

theorem winner_index_first_maximum:
  assumes "tally \<noteq> []"
  shows "(\<exists>i. winner_index tally = Inr i \<and> i < length tally
            \<and> tally ! i = Max (set tally)
            \<and> (\<forall>j<length tally. tally ! j \<le> tally ! i)
            \<and> (\<forall>j<i. tally ! j < tally ! i))
       \<and> winner_index [2, 2] = Inr 0
       \<and> winner_index [2, 1, 2, 1] = Inr 0"
proof -
  obtain x rest where t: "tally = x # rest" using assms by (cases tally) auto
  have mx: "py_max tally = Inr (Max (set tally))"
    by (simp add: py_max_def t foldl_best_Max del: foldl_Cons)
  have "Max (set tally) \<in> set tally" using assms by (intro Max_in) simp_all
  then obtain i where i: "py_index tally (Max (set tally)) = Inr i" "i < length tally"
      "tally ! i = Max (set tally)" "\<forall>j<i. tally ! j \<noteq> Max (set tally)"
    using py_index_first by blast
  have le: "\<forall>j<length tally. tally ! j \<le> tally ! i"
    using i(3) by (simp add: Max_ge)
  have "\<forall>j<i. tally ! j < tally ! i"
  proof (intro allI impI)
    fix j assume "j < i"
    then have "tally ! j \<le> tally ! i" "tally ! j \<noteq> tally ! i"
      using le i(2,3,4) by simp_all
    then show "tally ! j < tally ! i" by simp
  qed
  then have "\<exists>i. winner_index tally = Inr i \<and> i < length tally
            \<and> tally ! i = Max (set tally)
            \<and> (\<forall>j<length tally. tally ! j \<le> tally ! i)
            \<and> (\<forall>j<i. tally ! j < tally ! i)"
    using mx i le by (simp add: winner_index_def)
  moreover have "winner_index [2, 2] = Inr 0" "winner_index [2, 1, 2, 1] = Inr 0"
    by (simp_all add: winner_index_def py_max_def)
  ultimately show ?thesis by blast
qed

text \<open>
  C9 on the tallies \<open>[2, 1, 2, 1]\<close> and \<open>[1, 3, 3, 0]\<close>.
\<close>

theorem winner_index_first_maximum_witness:
  "[2, 1, 2, 1 :: int] \<noteq> [] \<and> winner_index [2, 1, 2, 1] = Inr 0
   \<and> winner_index [1, 3, 3, 0] = Inr 1"
proof -
  have "winner_index [1, 3, 3, 0] = Inr 1"
    by (simp add: winner_index_def py_max_def)
  then show ?thesis
    using winner_index_first_maximum [of "[2, 1, 2, 1]"] by simp
qed

subsection \<open>C10: the prime pool of key generation\<close>

text \<open>
  Claim C10 (key pool). \<open>generatePaillierKey\<close> returns the same keypair for every value of
  \<open>bits\<close>; \<open>p\<close> is chosen from the ten listed primes and \<open>q\<close> from the same list without
  \<open>p\<close>, so \<open>p \<noteq> q\<close>, and the public key has \<open>n = p * q\<close>, \<open>g = n + 1\<close> and
  \<open>n_sq = n * n\<close>.
\<close>

theorem generatePaillierKey_pool_invariant:
  "\<exists>p q pub priv.
       generatePaillierKey bits k1 k2 = Inr (pub, priv)
     \<and> generatePaillierKey bits' k1 k2 = Inr (pub, priv)
     \<and> random_choice [101, 103, 107, 109, 113, 127, 131, 137, 139, 149] k1 = Inr p
     \<and> random_choice (filter (\<lambda>x. x \<noteq> p) [101, 103, 107, 109, 113, 127, 131, 137, 139, 149]) k2
          = Inr q
     \<and> p \<in> {101, 103, 107, 109, 113, 127, 131, 137, 139, 149}
     \<and> q \<in> {101, 103, 107, 109, 113, 127, 131, 137, 139, 149}
     \<and> p \<noteq> q
     \<and> pub_n pub = p * q
     \<and> pub_g pub = pub_n pub + 1
     \<and> pub_n_sq pub = pub_n pub * pub_n pub"
proof -
  obtain p q lam mu where k:
      "generatePaillierKey bits k1 k2
         = Inr (PaillierPublicKey (p * q) (p * q + 1), PaillierPrivateKey lam mu)"
      "random_choice small_primes k1 = Inr p"
      "random_choice (filter (\<lambda>x. x \<noteq> p) small_primes) k2 = Inr q"
      "p \<in> set small_primes" "q \<in> set small_primes" "p \<noteq> q"
    using generatePaillierKey_result [of bits k1 k2] by blast
  have same: "generatePaillierKey bits' k1 k2 = generatePaillierKey bits k1 k2"
    by (simp add: generatePaillierKey_def)
  have sp: "small_primes = [101, 103, 107, 109, 113, 127, 131, 137, 139, 149]"
    by (simp add: small_primes_def)
  have "p \<in> {101, 103, 107, 109, 113, 127, 131, 137, 139, 149}"
      "q \<in> {101, 103, 107, 109, 113, 127, 131, 137, 139, 149}"
    using k(4,5) by (simp_all add: sp)
  moreover have "pub_n (PaillierPublicKey (p * q) (p * q + 1)) = p * q"
      "pub_g (PaillierPublicKey (p * q) (p * q + 1))
         = pub_n (PaillierPublicKey (p * q) (p * q + 1)) + 1"
      "pub_n_sq (PaillierPublicKey (p * q) (p * q + 1))
         = pub_n (PaillierPublicKey (p * q) (p * q + 1))
           * pub_n (PaillierPublicKey (p * q) (p * q + 1))"
    by (simp_all add: PaillierPublicKey_def)
  ultimately show ?thesis
    using k(1,2,3,6) same unfolding sp by metis
qed

text \<open>
  C10 for \<open>bits = 512\<close> and \<open>bits = 64\<close> at the first element of each choice.
\<close>

theorem generatePaillierKey_pool_invariant_witness:
  "\<exists>pub priv. generatePaillierKey 512 0 0 = Inr (pub, priv)
      \<and> generatePaillierKey 64 0 0 = Inr (pub, priv)
      \<and> pub_g pub = pub_n pub + 1 \<and> pub_n_sq pub = pub_n pub * pub_n pub"
  using generatePaillierKey_pool_invariant [of 512 0 0 64] by blast

end
